theory Spec2Isabelle
  imports Main "HOL-Library.Word"
begin

unbundle bit_operations_syntax

section \<open>Data model of \<open>SeaDecrypt.cpp\<close>\<close>

type_synonym u8 = "8 word"
type_synonym u32 = "32 word"
type_synonym u64 = "64 word"

text \<open>\<open>constexpr int32_t MASK_SIZE = 0x1000;\<close>\<close>

definition MASK_SIZE :: int where
  "MASK_SIZE = 0x1000"

text \<open>\<open>struct EncryptionKey { uint32_t Seed0{}; uint32_t Seed1{}; };\<close>\<close>

record EncryptionKey =
  Seed0 :: u32
  Seed1 :: u32

text \<open>
  Undefined behaviour of the C++ (a store or a load outside an allocated buffer) is a
  value of the model, so that a function that runs into it returns \<open>Inl OutOfBounds\<close>
  and a function that is free of it returns \<open>Inr\<close> of its result.
\<close>

datatype fault = OutOfBounds

section \<open>Key derivation: \<open>GetEncryptionKey\<close>\<close>

text \<open>
  A file name is a \<open>std::string_view\<close>, a sequence of C++ \<open>char\<close>: a \<open>string\<close>, whose
  characters are 8-bit code units. In \<open>s ^ fileName[i]\<close> the \<open>char\<close> is promoted to
  \<open>int\<close> and then converted to \<open>uint32_t\<close>. Whether \<open>char\<close> is signed is chosen by the
  C++ implementation (signed on x86 and x64 with MSVC, GCC and Clang, unsigned on ARM
  Linux and Android), so the model takes it as the parameter \<open>char_signed\<close>: a signed
  \<open>char\<close> is sign-extended, an unsigned one zero-extended.
\<close>

definition char_to_u32 :: "bool \<Rightarrow> char \<Rightarrow> u32" where
  "char_to_u32 char_signed ch =
     (if char_signed then scast (of_char ch :: u8) else ucast (of_char ch :: u8))"

text \<open>The loop body of both loops: \<open>s = (s + (s << 5)) ^ fileName[i]\<close>.\<close>

definition key_step :: "bool \<Rightarrow> u32 \<Rightarrow> char \<Rightarrow> u32" where
  "key_step char_signed s ch = (s + push_bit 5 s) XOR char_to_u32 char_signed ch"

text \<open>\<open>for (int i = fileNameLen - 1; i >= 0; i--) s0 = (s0 + (s0 << 5)) ^ fileName[i];\<close>\<close>

function key_loop0 :: "bool \<Rightarrow> string \<Rightarrow> int \<Rightarrow> u32 \<Rightarrow> u32" where
  "key_loop0 char_signed fileName i s0 =
     (if i \<ge> 0
      then key_loop0 char_signed fileName (i - 1) (key_step char_signed s0 (fileName ! nat i))
      else s0)"
  by pat_completeness auto
termination
  by (relation "measure (\<lambda>(char_signed, fileName, i, s0). nat (i + 1))") auto

text \<open>\<open>for (int i = 0; i < fileNameLen; i++) s1 = (s1 + (s1 << 5)) ^ fileName[i];\<close>\<close>

function key_loop1 :: "bool \<Rightarrow> string \<Rightarrow> int \<Rightarrow> int \<Rightarrow> u32 \<Rightarrow> u32" where
  "key_loop1 char_signed fileName fileNameLen i s1 =
     (if i < fileNameLen
      then key_loop1 char_signed fileName fileNameLen (i + 1)
             (key_step char_signed s1 (fileName ! nat i))
      else s1)"
  by pat_completeness auto
termination
  by (relation "measure (\<lambda>(char_signed, fileName, fileNameLen, i, s1). nat (fileNameLen - i))")
    auto

text \<open>
  \<open>fileNameLen = static_cast<int32_t>(fileName.size())\<close>: the size is reduced to 32 bits
  and read as two's complement.
\<close>

definition GetEncryptionKey :: "bool \<Rightarrow> string \<Rightarrow> EncryptionKey" where
  "GetEncryptionKey char_signed fileName =
     (let fileNameLen = sint (word_of_nat (length fileName) :: u32);
          s0 = key_loop0 char_signed fileName (fileNameLen - 1) 0;
          s1 = key_loop1 char_signed fileName fileNameLen 0 0
      in \<lparr>Seed0 = s0, Seed1 = s1\<rparr>)"

section \<open>Mask generation: \<open>CreateMask\<close>\<close>

text \<open>
  Modelled from the spec: \<open>rol32\<close>, which \<open>CreateMask\<close> calls and whose declaration
  (in \<open>common.h\<close>) is not among the sources. The spec's rotate-left is a circular shift of
  a 32-bit word: the bits shifted out of the high end re-enter at the low end.
\<close>

definition rol32 :: "u32 \<Rightarrow> nat \<Rightarrow> u32" where
  "rol32 x shift = push_bit shift x OR drop_bit (32 - shift) x"

text \<open>
  The variables of the loop of \<open>CreateMask\<close>: the counter \<open>i\<close> (an \<open>int32_t\<close>, here
  \<open>remaining\<close>), the two running seeds, the write pointer \<open>dst8\<close> as an offset into the
  buffer, and the buffer \<open>result\<close> itself.
\<close>

record mask_state =
  remaining :: int
  seed0 :: u32
  seed1 :: u32
  dst8 :: nat
  result :: "u8 list"

text \<open>
  \<open>*dst8++ = v\<close>: the 32-bit value is converted to \<open>uint8_t\<close> and stored; a store past the
  end of the buffer is undefined behaviour.
\<close>

definition put8 :: "u32 \<Rightarrow> mask_state \<Rightarrow> fault + mask_state" where
  "put8 v st =
     (if dst8 st < length (result st)
      then Inr (st\<lparr>result := (result st)[dst8 st := ucast v], dst8 := dst8 st + 1\<rparr>)
      else Inl OutOfBounds)"

text \<open>The body of the \<open>while\<close> loop, lines 54 to 71.\<close>

definition mask_round :: "mask_state \<Rightarrow> fault + mask_state" where
  "mask_round st =
     (let s0 = seed0 st;
          s1 = seed1 st XOR 0xF7654321;
          st = st\<lparr>seed0 := rol32 s1 25 + s0, seed1 := rol32 s0 29\<rparr>
      in case put8 (drop_bit 3 s0 AND 0xFF) st of
           Inl e \<Rightarrow> Inl e
         | Inr st \<Rightarrow>
             if remaining st \<ge> 2
             then (case put8 (drop_bit 11 s0 AND 0xFF) st of
                     Inl e \<Rightarrow> Inl e
                   | Inr st \<Rightarrow>
                       if remaining st \<ge> 3
                       then (case put8 (drop_bit 19 s0 AND 0xFF) st of
                               Inl e \<Rightarrow> Inl e
                             | Inr st \<Rightarrow>
                                 if remaining st \<ge> 4
                                 then (case put8 (drop_bit 24 (seed1 st) AND 0xFF) st of
                                         Inl e \<Rightarrow> Inl e
                                       | Inr st \<Rightarrow> Inr (st\<lparr>remaining := remaining st - 4\<rparr>))
                                 else Inr st)
                       else Inr st)
             else Inr st)"

text \<open>
  \<open>while (i > 0) { ... }\<close>. A round that does not fault either lowers the counter by 4
  or moves the write pointer towards the end of the buffer, which bounds the number of
  rounds: the model of the loop is a total function.
\<close>

function mask_loop :: "mask_state \<Rightarrow> fault + mask_state" where
  "mask_loop st =
     (if remaining st > 0
      then (case mask_round st of Inl e \<Rightarrow> Inl e | Inr st' \<Rightarrow> mask_loop st')
      else Inr st)"
  by pat_completeness auto
termination
  by (relation "measure (\<lambda>st. nat (remaining st) + (length (result st) - dst8 st))")
    (auto simp: mask_round_def put8_def Let_def split: if_splits)

text \<open>
  \<open>std::make_unique<uint8_t[]>(MASK_SIZE)\<close> allocates \<open>MASK_SIZE\<close> bytes, all zero; the
  loop starts with \<open>i = MASK_SIZE\<close> and the write pointer at the start of the buffer.
\<close>

definition mask_init :: "EncryptionKey \<Rightarrow> mask_state" where
  "mask_init key =
     \<lparr>remaining = MASK_SIZE, seed0 = Seed0 key, seed1 = Seed1 key, dst8 = 0,
      result = replicate (nat MASK_SIZE) 0\<rparr>"

definition CreateMask :: "EncryptionKey \<Rightarrow> fault + u8 list" where
  "CreateMask key =
     (case mask_loop (mask_init key) of Inl e \<Rightarrow> Inl e | Inr st \<Rightarrow> Inr (result st))"

section \<open>The stream decoder: \<open>Decrypt\<close>\<close>

text \<open>
  \<open>(((data[i] - mask8[b]) ^ mask8[c]) + mask8[a]) & 0xFF\<close>: the four \<open>uint8_t\<close> operands
  are promoted to \<open>int\<close>, so the difference can be negative and \<open>^\<close> and \<open>&\<close> act on its
  two's complement (as \<open>XOR\<close> and \<open>AND\<close> on \<open>int\<close> do); the intermediate values lie
  between \<open>-255\<close> and \<open>510\<close>, far from the bounds of \<open>int\<close>. The assignment to
  \<open>data[i]\<close> converts the result to \<open>uint8_t\<close>.
\<close>

definition decode_byte :: "u8 \<Rightarrow> u8 \<Rightarrow> u8 \<Rightarrow> u8 \<Rightarrow> u8" where
  "decode_byte d mb mc ma =
     word_of_int ((((uint d - uint mb) XOR uint mc) + uint ma) AND 0xFF)"

text \<open>
  The \<open>for\<close> loop of \<open>Decrypt\<close>, lines 83 to 93, with its variables \<open>i\<close> (a \<open>size_t\<close>),
  \<open>b\<close> and \<open>c\<close> (\<open>uint32_t\<close>) and the vector \<open>data\<close>, updated in place. \<open>MASK_SIZE\<close> is
  converted to \<open>uint32_t\<close> in \<open>b % MASK_SIZE\<close>.
\<close>

function decrypt_loop :: "u8 list \<Rightarrow> nat \<Rightarrow> u32 \<Rightarrow> u32 \<Rightarrow> u8 list \<Rightarrow> u8 list" where
  "decrypt_loop mask8 i b c data =
     (if i < length data
      then (let a = b mod word_of_int MASK_SIZE;
                c = c mod word_of_int MASK_SIZE;
                b = (a + 1) mod word_of_int MASK_SIZE;
                data = data[i := decode_byte (data ! i) (mask8 ! unat b) (mask8 ! unat c)
                                    (mask8 ! unat a)];
                c = c + 3;
                b = a + 7
            in decrypt_loop mask8 (i + 1) b c data)
      else data)"
  by pat_completeness auto
termination
  by (relation "measure (\<lambda>(mask8, i, b, c, data). length data - i)") auto

definition Decrypt :: "u8 list \<Rightarrow> EncryptionKey \<Rightarrow> fault + u8 list" where
  "Decrypt data key =
     (case CreateMask key of
        Inl e \<Rightarrow> Inl e
      | Inr mask8 \<Rightarrow> Inr (decrypt_loop mask8 0 0 0 data))"

section \<open>The facade: \<open>DecryptSea\<close>\<close>

text \<open>\<open>std::vector::resize\<close>: cut to \<open>n\<close> elements, or filled up to \<open>n\<close> with zeros.\<close>

definition resize :: "nat \<Rightarrow> u8 list \<Rightarrow> u8 list" where
  "resize n xs = take n xs @ replicate (n - length xs) 0"

text \<open>
  \<open>DecryptSea\<close> takes a path; the model takes what the function reads from it: the base
  name \<open>path.filename().u8string()\<close> and the bytes that \<open>File::ReadAllBytes\<close> returns.
  \<open>inputSize\<close> is a \<open>size_t\<close> (64 bits), so \<open>data.size() - 4\<close> wraps around below 4.
  \<open>memcpy\<close> then reads the 4 bytes at offset \<open>inputSize\<close>, which is undefined behaviour
  unless they lie inside the vector.
\<close>

definition DecryptSea :: "bool \<Rightarrow> string \<Rightarrow> u8 list \<Rightarrow> fault + u8 list" where
  "DecryptSea char_signed fileName fileBytes =
     (let key = GetEncryptionKey char_signed fileName;
          data = fileBytes;
          inputSize = (word_of_nat (length data) - 4 :: u64)
      in if unat inputSize + 4 \<le> length data
         then Decrypt (resize (unat inputSize) data) key
         else Inl OutOfBounds)"

section \<open>The loop of \<open>CreateMask\<close> as a transition system\<close>

text \<open>
  The states in which the loop of \<open>CreateMask\<close> reaches its head \<open>while (i > 0)\<close>: the
  initial state, and the state after the body whenever the condition held and the body
  ran without fault.
\<close>

inductive mask_reach :: "EncryptionKey \<Rightarrow> mask_state \<Rightarrow> bool" for key where
  reach_init: "mask_reach key (mask_init key)"
| reach_round: "mask_reach key st \<Longrightarrow> 0 < remaining st \<Longrightarrow> mask_round st = Inr st' \<Longrightarrow>
                mask_reach key st'"

code_pred mask_reach .

section \<open>The algorithms as the specification words them\<close>

text \<open>
  The mask of section 4.2 of the specification: rounds of four bytes, \<open>(t0 >> 3) & 0xFF\<close>,
  \<open>(t0 >> 11) & 0xFF\<close>, \<open>(t0 >> 19) & 0xFF\<close> and \<open>(runningSeed1 >> 24) & 0xFF\<close>, where
  \<open>t0\<close> is the first running seed before the update of the round and \<open>runningSeed1\<close>
  the second one after it.
\<close>

fun spec_mask_rounds :: "nat \<Rightarrow> u32 \<Rightarrow> u32 \<Rightarrow> u8 list" where
  "spec_mask_rounds 0 r0 r1 = []"
| "spec_mask_rounds (Suc n) r0 r1 =
     (let t0 = r0;
          t1 = r1 XOR 0xF7654321;
          r0 = rol32 t1 25 + t0;
          r1 = rol32 t0 29
      in [ucast (drop_bit 3 t0 AND 0xFF), ucast (drop_bit 11 t0 AND 0xFF),
          ucast (drop_bit 19 t0 AND 0xFF), ucast (drop_bit 24 r1 AND 0xFF)]
         @ spec_mask_rounds n r0 r1)"

text \<open>
  The decoder of section 4.3 of the specification, on mathematical integers: steps 1 to 6
  for each byte of the ciphertext in ascending order, \<open>b\<close> and \<open>c\<close> left unreduced by
  steps 5 and 6.
\<close>

fun spec_decode :: "int list \<Rightarrow> nat \<Rightarrow> nat \<Rightarrow> int list \<Rightarrow> int list" where
  "spec_decode mk b c [] = []"
| "spec_decode mk b c (x # xs) =
     (let a = b mod 4096;
          c = c mod 4096;
          b = (a + 1) mod 4096;
          p = (((x - mk ! b) XOR mk ! c) + mk ! a) mod 256;
          c = c + 3;
          b = a + 7
      in p # spec_decode mk b c xs)"

text \<open>
  The precomputation of section 5 and section 8: the index triples \<open>(a, b, c)\<close> of the
  first \<open>n\<close> positions, computed by the recurrence alone, and the decoder that applies
  the transform of each byte with the triple of its position.
\<close>

fun index_seq :: "nat \<Rightarrow> nat \<Rightarrow> nat \<Rightarrow> (nat \<times> nat \<times> nat) list" where
  "index_seq 0 b c = []"
| "index_seq (Suc n) b c =
     (let a = b mod 4096;
          c = c mod 4096;
          b = (a + 1) mod 4096
      in (a, b, c) # index_seq n (a + 7) (c + 3))"

definition decode_precomputed :: "u8 list \<Rightarrow> u8 list \<Rightarrow> u8 list" where
  "decode_precomputed mask8 data =
     map (\<lambda>(x, (a, b, c)). decode_byte x (mask8 ! b) (mask8 ! c) (mask8 ! a))
       (zip data (index_seq (length data) 0 0))"

declare key_loop0.simps [simp del]
declare key_loop1.simps [simp del]
declare mask_loop.simps [simp del]
declare decrypt_loop.simps [simp del]

section \<open>Key derivation\<close>






subsection \<open>The promotion of \<open>char\<close>\<close>

lemma scast_u8_u32:
  "(scast (w :: u8) :: u32) = (if bit w 7 then ucast w OR NOT (mask 8) else ucast w)"
proof (rule bit_word_eqI)
  fix n
  assume n: "n < LENGTH(32)"
  show "bit (scast w :: u32) n =
        bit (if bit w 7 then ucast w OR NOT (mask 8) else ucast w :: u32) n"
  proof (cases "n < 7")
    case True
    then show ?thesis by (simp add: bit_simps min_def)
  next
    case False
    then have m: "min 7 n = 7" by simp
    have eq7: "bit w n \<Longrightarrow> n = 7"
      using False bit_imp_le_length [of w n] by simp
    have lt8: "n < 8 \<Longrightarrow> n = 7"
      using False by simp
    show ?thesis
      using n eq7 lt8 by (auto simp: bit_simps m)
  qed
qed

lemma bit7_u8: "bit (w :: u8) 7 \<longleftrightarrow> 0x80 \<le> unat w"
proof -
  have "unat w < 2 ^ LENGTH(8)" by (rule unsigned_less)
  then have "unat w < 256" by simp
  then have "unat w div 128 = (if 128 \<le> unat w then 1 else 0)"
    by (auto simp: div_nat_eqI)
  then have "bit (unat w) 7 \<longleftrightarrow> 128 \<le> unat w" by (simp add: bit_iff_odd)
  then show ?thesis by (simp add: bit_unsigned_iff)
qed

lemma unat_of_char_u8: "unat (of_char ch :: u8) = of_char ch"
proof -
  have "(of_char ch :: u8) = of_nat (of_char ch)" by (simp add: of_nat_of_char)
  then show ?thesis
    using nat_of_char_less_256 [of ch] by (simp add: unat_of_nat take_bit_nat_eq_self)
qed

lemma ucast_of_char: "(ucast (of_char ch :: u8) :: u32) = of_char ch"
proof -
  have "(ucast (of_char ch :: u8) :: u32) = of_nat (unat (of_char ch :: u8))" by simp
  then show ?thesis by (simp add: unat_of_char_u8 of_nat_of_char)
qed

lemma notmask8: "NOT (mask 8) = (0xFFFFFF00 :: u32)"
  by (simp add: mask_numeral)

text \<open>
  Claim C6, as amended. The value that the loop body XORs into the accumulator is the
  code unit zero-extended to 32 bits when it is below \<open>0x80\<close> or when \<open>char\<close> is
  unsigned; a code unit of \<open>0x80\<close> or more under a signed \<open>char\<close> is sign-extended:
  the upper 24 bits are set.
\<close>

theorem key_step_char_extension:
  "key_step cs s ch =
     (s + push_bit 5 s) XOR
     (if cs \<and> 0x80 \<le> (of_char ch :: nat) then of_char ch OR 0xFFFFFF00 else of_char ch)"
  by (simp add: key_step_def char_to_u32_def scast_u8_u32 bit7_u8 unat_of_char_u8 ucast_of_char
      notmask8)

theorem key_step_char_extension_witness:
  "key_step True 0 (CHR 0x80) = 0xFFFFFF80 \<and> key_step True 0 (CHR ''x'') = 0x78 \<and>
   key_step False 0 (CHR 0x80) = 0x80"
  using key_step_char_extension [of True 0 "CHR 0x80"]
    key_step_char_extension [of True 0 "CHR ''x''"]
    key_step_char_extension [of False 0 "CHR 0x80"]
  by simp

text \<open>
  Claim C6 as stated fails where \<open>char\<close> is signed: the code unit \<open>0x80\<close> enters the
  accumulator as \<open>0xFFFFFF80\<close>, not as \<open>0x80\<close>, and the key of the one-character
  name made of it has both seeds equal to \<open>0xFFFFFF80\<close>.
\<close>

theorem key_step_signed_char_counterexample:
  "key_step True 0 (CHR 0x80) = 0xFFFFFF80 \<and>
   key_step True 0 (CHR 0x80) \<noteq> (0 + push_bit 5 0) XOR of_char (CHR 0x80) \<and>
   GetEncryptionKey True [CHR 0x80] = \<lparr>Seed0 = 0xFFFFFF80, Seed1 = 0xFFFFFF80\<rparr>"
  by (simp add: GetEncryptionKey_def key_loop0.simps key_loop1.simps key_step_def char_to_u32_def)

section \<open>Mask generation\<close>

text \<open>For a shift strictly between 0 and 32, \<open>rol32\<close> is the rotation of the word library.\<close>

lemma rol32_rotl: "0 < n \<Longrightarrow> n < 32 \<Longrightarrow> rol32 x n = word_rotl n x"
proof (rule bit_word_eqI)
  fix k
  assume n: "0 < n" "n < 32" and k: "k < LENGTH(32)"
  have lhs: "bit (rol32 x n) k \<longleftrightarrow> (n \<le> k \<and> bit x (k - n)) \<or> bit x (32 - n + k)"
    using k by (simp add: rol32_def bit_simps)
  have rhs: "bit (word_rotl n x) k \<longleftrightarrow> bit x ((k + (32 - n)) mod 32)"
    using k n by (simp add: bit_simps)
  show "bit (rol32 x n) k = bit (word_rotl n x) k"
  proof (cases "n \<le> k")
    case True
    have "k + (32 - n) = 32 + (k - n)" using True n by simp
    then have "(k + (32 - n)) mod 32 = (32 + (k - n)) mod 32" by (simp only:)
    also have "\<dots> = (k - n) mod 32" by (simp only: mod_add_self1)
    also have "\<dots> = k - n" using k by simp
    finally have "(k + (32 - n)) mod 32 = k - n" .
    moreover have "\<not> bit x (32 - n + k)"
      using True bit_imp_le_length [of x "32 - n + k"] n by auto
    ultimately show ?thesis using True lhs rhs by simp
  next
    case False
    then have "(k + (32 - n)) mod 32 = 32 - n + k" using k n by simp
    then show ?thesis using False lhs rhs by simp
  qed
qed

text \<open>The stored byte \<open>(w >> n) & 0xFF\<close>, read as a number.\<close>

lemma unat_byte: "unat (ucast (drop_bit n (w :: u32) AND 0xFF) :: u8) = unat w div 2 ^ n mod 256"
proof -
  have "(0xFF :: u32) = mask 8" by (simp add: mask_numeral)
  then have "drop_bit n w AND 0xFF = take_bit 8 (drop_bit n w)"
    by (simp only: take_bit_eq_mask)
  then have "unat (drop_bit n w AND 0xFF) = take_bit 8 (unat (drop_bit n w))"
    by (simp only: unsigned_take_bit_eq)
  also have "unat (drop_bit n w) = drop_bit n (unat w)"
    by (rule unat_drop_bit_eq)
  also have "take_bit 8 (drop_bit n (unat w)) = unat w div 2 ^ n mod 256"
    by (simp only: drop_bit_eq_div take_bit_eq_mod) simp
  finally have "unat (drop_bit n w AND 0xFF) = unat w div 2 ^ n mod 256" .
  moreover have "unat (ucast (drop_bit n w AND 0xFF) :: u8) = unat (drop_bit n w AND 0xFF) mod 256"
    by (simp only: unsigned_ucast_eq take_bit_eq_mod) simp
  ultimately show ?thesis by simp
qed

text \<open>Four consecutive stores fill a window of the buffer and leave the rest as it was.\<close>

lemma list_update_run:
  "d + 4 \<le> length xs \<Longrightarrow>
   xs[d := a, Suc d := b, Suc (Suc d) := c, Suc (Suc (Suc d)) := e] =
     take d xs @ [a, b, c, e] @ drop (d + 4) xs"
  by (rule nth_equalityI) (auto simp: nth_append nth_list_update nth_Cons' )

subsection \<open>One round\<close>

text \<open>A round with at least four bytes remaining, and room for them, takes every branch.\<close>

lemma mask_round_full:
  assumes "4 \<le> remaining st" and "dst8 st + 4 \<le> length (result st)"
  shows "mask_round st =
     Inr \<lparr>remaining = remaining st - 4,
          seed0 = rol32 (seed1 st XOR 0xF7654321) 25 + seed0 st,
          seed1 = rol32 (seed0 st) 29,
          dst8 = dst8 st + 4,
          result = take (dst8 st) (result st) @
            [ucast (drop_bit 3 (seed0 st) AND 0xFF), ucast (drop_bit 11 (seed0 st) AND 0xFF),
             ucast (drop_bit 19 (seed0 st) AND 0xFF),
             ucast (drop_bit 24 (rol32 (seed0 st) 29) AND 0xFF)] @
            drop (dst8 st + 4) (result st)\<rparr>"
  using assms
  by (cases st) (simp add: mask_round_def put8_def Let_def list_update_run)

text \<open>A round with one, two or three bytes remaining stops before \<open>i -= 4\<close>.\<close>

lemma mask_round_partial:
  assumes "0 < remaining st" and "remaining st < 4"
    and "dst8 st + nat (remaining st) \<le> length (result st)"
  shows "mask_round st =
     Inr \<lparr>remaining = remaining st,
          seed0 = rol32 (seed1 st XOR 0xF7654321) 25 + seed0 st,
          seed1 = rol32 (seed0 st) 29,
          dst8 = dst8 st + nat (remaining st),
          result = take (dst8 st) (result st) @
            take (nat (remaining st))
              [ucast (drop_bit 3 (seed0 st) AND 0xFF), ucast (drop_bit 11 (seed0 st) AND 0xFF),
               ucast (drop_bit 19 (seed0 st) AND 0xFF)] @
            drop (dst8 st + nat (remaining st)) (result st)\<rparr>"
proof -
  consider "remaining st = 1" | "remaining st = 2" | "remaining st = 3"
    using assms(1,2) by linarith
  then show ?thesis
  proof cases
    case 1
    then show ?thesis using assms(3)
      by (cases st) (simp add: mask_round_def put8_def Let_def upd_conv_take_nth_drop)
  next
    case 2
    have "xs[d := a, Suc d := b] = take d xs @ [a, b] @ drop (d + 2) xs"
      if "d + 2 \<le> length xs" for xs :: "u8 list" and d a b
    proof (rule nth_equalityI)
      show "length (xs[d := a, Suc d := b]) = length (take d xs @ [a, b] @ drop (d + 2) xs)"
        using that by simp
    next
      fix i
      assume "i < length (xs[d := a, Suc d := b])"
      then have i: "i < length xs" by simp
      consider "i < d" | "i = d" | "i = Suc d" | "Suc d < i" by arith
      then show "xs[d := a, Suc d := b] ! i = (take d xs @ [a, b] @ drop (d + 2) xs) ! i"
      proof cases
        case 4
        then have "i - d = Suc (Suc (i - d - 2))" by arith
        moreover have "d + 2 + (i - d - 2) = i" using 4 by arith
        ultimately show ?thesis using 4 i that by (simp add: nth_append)
      qed (use i that in \<open>simp_all add: nth_append\<close>)
    qed
    then show ?thesis using 2 assms(3)
      by (cases st) (simp add: mask_round_def put8_def Let_def)
  next
    case 3
    have "xs[d := a, Suc d := b, Suc (Suc d) := c] = take d xs @ [a, b, c] @ drop (d + 3) xs"
      if "d + 3 \<le> length xs" for xs :: "u8 list" and d a b c
    proof (rule nth_equalityI)
      show "length (xs[d := a, Suc d := b, Suc (Suc d) := c]) =
            length (take d xs @ [a, b, c] @ drop (d + 3) xs)"
        using that by simp
    next
      fix i
      assume "i < length (xs[d := a, Suc d := b, Suc (Suc d) := c])"
      then have i: "i < length xs" by simp
      consider "i < d" | "i = d" | "i = Suc d" | "i = Suc (Suc d)" | "Suc (Suc d) < i" by arith
      then show "xs[d := a, Suc d := b, Suc (Suc d) := c] ! i =
                 (take d xs @ [a, b, c] @ drop (d + 3) xs) ! i"
      proof cases
        case 5
        then have "i - d = Suc (Suc (Suc (i - d - 3)))" by arith
        moreover have "d + 3 + (i - d - 3) = i" using 5 by arith
        ultimately show ?thesis using 5 i that by (simp add: nth_append)
      qed (use i that in \<open>simp_all add: nth_append\<close>)
    qed
    then show ?thesis using 3 assms(3)
      by (cases st) (simp add: mask_round_def put8_def Let_def)
  qed
qed

subsection \<open>The loop\<close>

lemma length_spec_mask_rounds: "length (spec_mask_rounds k r0 r1) = 4 * k"
  by (induction k arbitrary: r0 r1) (simp_all add: Let_def)

text \<open>
  From a counter of \<open>4 * k\<close> with exactly that much room left in the buffer, the loop
  runs \<open>k\<close> full rounds and returns with the room filled by the bytes of the rounds.
\<close>

lemma mask_loop_aligned:
  "remaining st = 4 * int k \<Longrightarrow> dst8 st + 4 * k = length (result st) \<Longrightarrow>
   \<exists>st'. mask_loop st = Inr st' \<and> remaining st' = 0 \<and> dst8 st' = length (result st) \<and>
         result st' = take (dst8 st) (result st) @ spec_mask_rounds k (seed0 st) (seed1 st)"
proof (induction k arbitrary: st)
  case 0
  then show ?case by (simp add: mask_loop.simps)
next
  case (Suc k)
  let ?bytes = "[ucast (drop_bit 3 (seed0 st) AND 0xFF), ucast (drop_bit 11 (seed0 st) AND 0xFF),
             ucast (drop_bit 19 (seed0 st) AND 0xFF),
             ucast (drop_bit 24 (rol32 (seed0 st) 29) AND 0xFF)] :: u8 list"
  let ?st1 = "\<lparr>remaining = remaining st - 4,
          seed0 = rol32 (seed1 st XOR 0xF7654321) 25 + seed0 st,
          seed1 = rol32 (seed0 st) 29,
          dst8 = dst8 st + 4,
          result = take (dst8 st) (result st) @ ?bytes @ drop (dst8 st + 4) (result st)\<rparr>"
  have r: "4 \<le> remaining st" and d: "dst8 st + 4 \<le> length (result st)"
    using Suc.prems by simp_all
  have round: "mask_round st = Inr ?st1"
    using r d by (rule mask_round_full)
  have len: "length (result ?st1) = length (result st)"
    using d by simp
  have "remaining ?st1 = 4 * int k" "dst8 ?st1 + 4 * k = length (result ?st1)"
    using Suc.prems d by simp_all
  from Suc.IH [OF this] obtain st' where st':
    "mask_loop ?st1 = Inr st'" "remaining st' = 0" "dst8 st' = length (result ?st1)"
    "result st' = take (dst8 ?st1) (result ?st1) @ spec_mask_rounds k (seed0 ?st1) (seed1 ?st1)"
    by blast
  have "mask_loop st = mask_loop ?st1"
    using r round by (subst mask_loop.simps) simp
  moreover have "take (dst8 ?st1) (result ?st1) = take (dst8 st) (result st) @ ?bytes"
    using d by simp
  ultimately show ?case
    using st' len by (simp add: Let_def)
qed

lemma CreateMask_rounds:
  "CreateMask key = Inr (spec_mask_rounds 1024 (Seed0 key) (Seed1 key))"
proof -
  have "remaining (mask_init key) = 4 * int 1024"
       "dst8 (mask_init key) + 4 * 1024 = length (result (mask_init key))"
    by (simp_all add: mask_init_def MASK_SIZE_def)
  from mask_loop_aligned [OF this] show ?thesis
    by (auto simp: CreateMask_def mask_init_def)
qed

text \<open>The invariant of the loop head, and the loop from any state it reaches.\<close>

lemma mask_reach_aligned:
  "mask_reach key st \<Longrightarrow>
   \<exists>k. remaining st = 4 * int k \<and> dst8 st + 4 * k = 4096 \<and> length (result st) = 4096"
proof (induction rule: mask_reach.induct)
  case reach_init
  have "remaining (mask_init key) = 4 * int 1024 \<and> dst8 (mask_init key) + 4 * 1024 = 4096 \<and>
        length (result (mask_init key)) = 4096"
    by (simp add: mask_init_def MASK_SIZE_def)
  then show ?case by blast
next
  case (reach_round st st')
  then obtain k where k: "remaining st = 4 * int k" "dst8 st + 4 * k = 4096"
    "length (result st) = 4096" by blast
  with reach_round.hyps(2) obtain j where j: "k = Suc j" by (cases k) auto
  have "4 \<le> remaining st" "dst8 st + 4 \<le> length (result st)"
    using k j by simp_all
  from mask_round_full [OF this] reach_round.hyps(3)
  have "remaining st' = 4 * int j \<and> dst8 st' + 4 * j = 4096 \<and> length (result st') = 4096"
    using k j by auto
  then show ?case by blast
qed

lemma mask_reach_loop: "mask_reach key st \<Longrightarrow> mask_loop st = mask_loop (mask_init key)"
proof (induction rule: mask_reach.induct)
  case reach_init
  show ?case by simp
next
  case (reach_round st st')
  have "mask_loop st = mask_loop st'"
    using reach_round.hyps(2,3) by (subst mask_loop.simps) simp
  with reach_round.IH show ?case by simp
qed

text \<open>
  Claim C2. A round of mask generation (with the counter positive and room in the buffer
  for the bytes it writes) takes \<open>t0 = seed0\<close> and \<open>t1 = seed1 XOR 0xF7654321\<close>, sets
  \<open>seed0\<close> to the rotation of \<open>t1\<close> by 25 plus \<open>t0\<close> modulo \<open>2^32\<close> and \<open>seed1\<close> to the
  rotation of \<open>t0\<close> by 29, and writes up to four bytes at the write pointer, in this
  order: bits 3 to 10, 11 to 18 and 19 to 26 of \<open>t0\<close> and bits 24 to 31 of the updated
  \<open>seed1\<close>.
\<close>

theorem mask_round_spec:
  assumes "0 < remaining st" and "dst8 st + nat (min (remaining st) 4) \<le> length (result st)"
  shows "\<exists>st'. mask_round st = Inr st' \<and>
     seed0 st' = word_rotl 25 (seed1 st XOR 0xF7654321) + seed0 st \<and>
     unat (seed0 st') =
       (unat (word_rotl 25 (seed1 st XOR 0xF7654321)) + unat (seed0 st)) mod 2 ^ 32 \<and>
     seed1 st' = word_rotl 29 (seed0 st) \<and>
     dst8 st' = dst8 st + nat (min (remaining st) 4) \<and>
     map unat (take (nat (min (remaining st) 4)) (drop (dst8 st) (result st'))) =
       take (nat (min (remaining st) 4))
         [unat (seed0 st) div 2 ^ 3 mod 256, unat (seed0 st) div 2 ^ 11 mod 256,
          unat (seed0 st) div 2 ^ 19 mod 256, unat (seed1 st') div 2 ^ 24 mod 256]"
proof (cases "4 \<le> remaining st")
  case True
  then have m: "nat (min (remaining st) 4) = 4" by simp
  have d: "dst8 st + 4 \<le> length (result st)" using assms(2) m by simp
  show ?thesis
    using d
    by (simp add: mask_round_full [OF True d] m rol32_rotl unat_byte unat_word_ariths)
next
  case False
  then have lt: "remaining st < 4" by simp
  then have m: "nat (min (remaining st) 4) = nat (remaining st)" by simp
  have d: "dst8 st + nat (remaining st) \<le> length (result st)" using assms(2) m by simp
  consider "remaining st = 1" | "remaining st = 2" | "remaining st = 3"
    using assms(1) lt by linarith
  then show ?thesis
    using d
    by cases (simp_all add: mask_round_partial [OF assms(1) lt d] rol32_rotl unat_byte
        unat_word_ariths)
qed

theorem mask_round_spec_witness:
  "0 < remaining \<lparr>remaining = 4, seed0 = 0x12345678, seed1 = 0, dst8 = 0,
                  result = [0, 0, 0, 0]\<rparr> \<and>
   (\<exists>st'. mask_round \<lparr>remaining = 4, seed0 = 0x12345678, seed1 = 0, dst8 = 0,
                       result = [0, 0, 0, 0]\<rparr> = Inr st' \<and>
      seed0 st' = word_rotl 25 (0 XOR 0xF7654321) + 0x12345678 \<and>
      seed1 st' = word_rotl 29 0x12345678 \<and> dst8 st' = 4 \<and>
      map unat (take 4 (result st')) =
        [0xCF, 0x8A, 0x46, unat (word_rotl 29 (0x12345678 :: u32)) div 2 ^ 24 mod 256])"
  using mask_round_spec
    [of "\<lparr>remaining = 4, seed0 = 0x12345678, seed1 = 0, dst8 = 0, result = [0, 0, 0, 0]\<rparr>"]
  by auto




subsection \<open>The whole mask\<close>

lemma spec_mask_rounds_nth0:
  "spec_mask_rounds (Suc n) r0 r1 ! 0 = ucast (drop_bit 3 r0 AND 0xFF)"
  by (simp add: Let_def)

lemma spec_mask_rounds_nth4:
  "spec_mask_rounds (Suc (Suc n)) r0 r1 ! 4 =
     ucast (drop_bit 3 (rol32 (r1 XOR 0xF7654321) 25 + r0) AND 0xFF)"
  by (simp add: Let_def)

text \<open>
  Claim C5, as amended. For the key \<open>{0, 0}\<close> the first byte of the mask is
  \<open>(0 >> 3) & 0xFF = 0\<close>, taken from the first seed before its update; the byte
  \<open>(RotateLeft(0 XOR 0xF7654321, 25) >> 3) & 0xFF = 0x50\<close> of the claim is the first byte
  of the second round, at position 4 of the mask.
\<close>

theorem CreateMask_zero_key_first_byte:
  "\<exists>m. CreateMask \<lparr>Seed0 = 0, Seed1 = 0\<rparr> = Inr m \<and>
       m ! 0 = ucast (drop_bit 3 (0 :: u32) AND 0xFF) \<and> m ! 0 = 0 \<and>
       m ! 4 = ucast (drop_bit 3 (rol32 (0 XOR 0xF7654321) 25 AND 0xFFFFFFFF) AND 0xFF) \<and>
       m ! 4 = 0x50"
proof -
  have "spec_mask_rounds 1024 0 0 ! 0 = 0"
    using spec_mask_rounds_nth0 [of 1023 0 0] by simp
  moreover have "spec_mask_rounds 1024 0 0 ! 4 = 0x50"
    using spec_mask_rounds_nth4 [of 1022 0 0] by (simp add: rol32_def)
  moreover have
    "(ucast (drop_bit 3 (rol32 (0 XOR 0xF7654321) 25 AND 0xFFFFFFFF) AND 0xFF) :: u8) = 0x50"
    by (simp add: rol32_def)
  ultimately show ?thesis
    using CreateMask_rounds [of "\<lparr>Seed0 = 0, Seed1 = 0\<rparr>"] by simp
qed

text \<open>
  Claim C5 as stated fails: the first byte of the mask of the key \<open>{0, 0}\<close> is 0, and the
  value of the claim's formula is \<open>0x50\<close>.
\<close>

theorem CreateMask_zero_key_counterexample:
  "(case CreateMask \<lparr>Seed0 = 0, Seed1 = 0\<rparr> of
      Inl e \<Rightarrow> False
    | Inr m \<Rightarrow> m ! 0 = 0 \<and>
        m ! 0 \<noteq> ucast (drop_bit 3 (rol32 (0 XOR 0xF7654321) 25 AND 0xFFFFFFFF) AND 0xFF))"
proof -
  have "spec_mask_rounds 1024 0 0 ! 0 = 0"
    using spec_mask_rounds_nth0 [of 1023 0 0] by simp
  moreover have
    "(ucast (drop_bit 3 (rol32 (0 XOR 0xF7654321) 25 AND 0xFFFFFFFF) AND 0xFF) :: u8) = 0x50"
    by (simp add: rol32_def)
  ultimately show ?thesis
    using CreateMask_rounds [of "\<lparr>Seed0 = 0, Seed1 = 0\<rparr>"] by simp
qed

text \<open>
  Claim C8. For every key \<open>CreateMask\<close> returns, without fault, a buffer of exactly 4096
  bytes, and every position of it has been written when it returns: the write pointer
  ends at 4096 and the bytes returned do not depend on what the buffer held before the
  loop.
\<close>

theorem CreateMask_length:
  "\<exists>m. CreateMask key = Inr m \<and> length m = 4096 \<and>
       (\<forall>buf. length buf = 4096 \<longrightarrow>
          (\<exists>st. mask_loop ((mask_init key)\<lparr>result := buf\<rparr>) = Inr st \<and>
                dst8 st = 4096 \<and> result st = m))"
proof -
  let ?m = "spec_mask_rounds 1024 (Seed0 key) (Seed1 key)"
  have "\<exists>st. mask_loop ((mask_init key)\<lparr>result := buf\<rparr>) = Inr st \<and> dst8 st = 4096 \<and> result st = ?m"
    if "length buf = 4096" for buf
  proof -
    let ?st = "(mask_init key)\<lparr>result := buf\<rparr>"
    have "remaining ?st = 4 * int 1024" "dst8 ?st + 4 * 1024 = length (result ?st)"
      using that by (simp_all add: mask_init_def MASK_SIZE_def)
    from mask_loop_aligned [OF this] show ?thesis
      using that by (auto simp: mask_init_def)
  qed
  then show ?thesis
    by (simp add: CreateMask_rounds length_spec_mask_rounds)
qed

theorem CreateMask_length_witness:
  "length (replicate 4096 (0xFF :: u8)) = 4096 \<and>
   (\<exists>m. CreateMask \<lparr>Seed0 = 0, Seed1 = 0\<rparr> = Inr m \<and> length m = 4096 \<and>
     (\<exists>st. mask_loop ((mask_init \<lparr>Seed0 = 0, Seed1 = 0\<rparr>)\<lparr>result := replicate 4096 0xFF\<rparr>) = Inr st \<and>
           dst8 st = 4096 \<and> result st = m))"
proof -
  from CreateMask_length [of "\<lparr>Seed0 = 0, Seed1 = 0\<rparr>"] obtain m where
    m: "CreateMask \<lparr>Seed0 = 0, Seed1 = 0\<rparr> = Inr m" "length m = 4096"
    "\<forall>buf. length buf = 4096 \<longrightarrow>
          (\<exists>st. mask_loop ((mask_init \<lparr>Seed0 = 0, Seed1 = 0\<rparr>)\<lparr>result := buf\<rparr>) = Inr st \<and>
                dst8 st = 4096 \<and> result st = m)"
    by blast
  have "length (replicate 4096 (0xFF :: u8)) = 4096" by simp
  with m(3) have
    "\<exists>st. mask_loop ((mask_init \<lparr>Seed0 = 0, Seed1 = 0\<rparr>)\<lparr>result := replicate 4096 0xFF\<rparr>) = Inr st \<and>
          dst8 st = 4096 \<and> result st = m"
    by blast
  with m(1,2) show ?thesis by simp
qed

text \<open>
  Claim C10. \<open>CreateMask\<close> returns for every key, and in every state in which its loop
  reaches the loop head the counter is a multiple of 4 between 0 and 4096; whenever the
  loop condition holds there, the counter is at least 4 and the body takes the branch
  that writes four bytes and lowers the counter by exactly 4: no round stops at one of
  the earlier branches, which leave the counter as it is.
\<close>

theorem CreateMask_terminates_aligned:
  "(\<exists>m. CreateMask key = Inr m) \<and>
   (\<forall>st. mask_reach key st \<longrightarrow>
      mask_loop st = mask_loop (mask_init key) \<and>
      0 \<le> remaining st \<and> remaining st \<le> MASK_SIZE \<and> remaining st mod 4 = 0 \<and>
      (0 < remaining st \<longrightarrow>
         4 \<le> remaining st \<and>
         (\<exists>st'. mask_round st = Inr st' \<and> remaining st' = remaining st - 4 \<and>
               dst8 st' = dst8 st + 4)))"
proof (intro conjI allI impI)
  show "\<exists>m. CreateMask key = Inr m" by (simp add: CreateMask_rounds)
next
  fix st
  assume reach: "mask_reach key st"
  then show "mask_loop st = mask_loop (mask_init key)" by (rule mask_reach_loop)
  from mask_reach_aligned [OF reach] obtain k where k: "remaining st = 4 * int k"
    "dst8 st + 4 * k = 4096" "length (result st) = 4096" by blast
  show "0 \<le> remaining st" using k by simp
  show "remaining st \<le> MASK_SIZE" using k by (simp add: MASK_SIZE_def)
  show "remaining st mod 4 = 0" using k by simp
  {
    assume pos: "0 < remaining st"
    show "4 \<le> remaining st" using pos k by simp
    then have "dst8 st + 4 \<le> length (result st)" using k by simp
    with \<open>4 \<le> remaining st\<close> show "\<exists>st'. mask_round st = Inr st' \<and> remaining st' = remaining st - 4 \<and>
               dst8 st' = dst8 st + 4"
      by (simp add: mask_round_full)
  }
qed

theorem CreateMask_terminates_aligned_witness:
  "mask_reach \<lparr>Seed0 = 0, Seed1 = 0\<rparr> (mask_init \<lparr>Seed0 = 0, Seed1 = 0\<rparr>) \<and>
   0 < remaining (mask_init \<lparr>Seed0 = 0, Seed1 = 0\<rparr>) \<and>
   remaining (mask_init \<lparr>Seed0 = 0, Seed1 = 0\<rparr>) mod 4 = 0 \<and>
   (\<exists>st'. mask_round (mask_init \<lparr>Seed0 = 0, Seed1 = 0\<rparr>) = Inr st' \<and> remaining st' = 4092 \<and>
      dst8 st' = 4)"
proof -
  have r: "mask_reach \<lparr>Seed0 = 0, Seed1 = 0\<rparr> (mask_init \<lparr>Seed0 = 0, Seed1 = 0\<rparr>)"
    by (rule reach_init)
  have p: "0 < remaining (mask_init \<lparr>Seed0 = 0, Seed1 = 0\<rparr>)"
    by (simp add: mask_init_def MASK_SIZE_def)
  have v: "remaining (mask_init \<lparr>Seed0 = 0, Seed1 = 0\<rparr>) = 4096"
    "dst8 (mask_init \<lparr>Seed0 = 0, Seed1 = 0\<rparr>) = 0"
    by (simp_all add: mask_init_def MASK_SIZE_def)
  from CreateMask_terminates_aligned [of "\<lparr>Seed0 = 0, Seed1 = 0\<rparr>"] r p
  show ?thesis using v by auto
qed

section \<open>The stream decoder\<close>

subsection \<open>The transform of one byte\<close>

lemma and_255_int: "(k :: int) AND 0xFF = k mod 256"
proof -
  have "(0xFF :: int) = mask 8" by (simp add: mask_numeral)
  then have "k AND 0xFF = take_bit 8 k" by (simp only: take_bit_eq_mask)
  then show ?thesis by (simp add: take_bit_eq_mod)
qed

lemma decode_byte_uint:
  "uint (decode_byte d mb mc ma) = (((uint d - uint mb) XOR uint mc) + uint ma) mod 256"
  by (simp add: decode_byte_def and_255_int uint_word_of_int_eq take_bit_eq_mod)

text \<open>
  The transform on promoted \<open>int\<close> values is the same as subtracting, XORing and adding
  in 8-bit arithmetic.
\<close>

lemma decode_byte_word: "decode_byte d mb mc ma = ((d - mb) XOR mc) + ma"
proof -
  let ?k = "((uint d - uint mb) XOR uint mc) + uint ma"
  have "decode_byte d mb mc ma = word_of_int (?k mod 256)"
    by (simp only: decode_byte_def and_255_int)
  also have "\<dots> = word_of_int ?k"
    by (simp only: word_of_int_eq_iff) (simp add: take_bit_eq_mod)
  also have "\<dots> = (word_of_int (uint d - uint mb) XOR word_of_int (uint mc)) + word_of_int (uint ma)"
    by (simp only: of_int_add word_wi_log_defs(4))
  also have "\<dots> = ((d - mb) XOR mc) + ma"
    by (simp only: of_int_diff word_of_int_uint)
  finally show ?thesis .
qed

subsection \<open>The rolling indices\<close>

text \<open>
  The indices are reduced below 4096 before 1, 3 or 7 is added, so the 32-bit additions
  never wrap around.
\<close>

lemma unat_mod_mask_size: "unat (b mod word_of_int MASK_SIZE :: u32) = unat b mod 4096"
  by (simp add: MASK_SIZE_def unat_mod)

lemma unat_mod_plus:
  assumes "k < 2 ^ 32 - 4096"
  shows "unat (b mod word_of_int MASK_SIZE + word_of_nat k :: u32) = unat b mod 4096 + k"
proof -
  have "unat b mod 4096 < 4096" by simp
  then have lt: "unat b mod 4096 + k < 2 ^ 32" using assms by simp
  have k: "unat (word_of_nat k :: u32) = k"
    using assms by (simp add: unat_of_nat take_bit_nat_eq_self)
  have "unat (b mod word_of_int MASK_SIZE + word_of_nat k :: u32) =
        (unat b mod 4096 + k) mod 2 ^ 32"
    by (simp only: unat_word_ariths(1) unat_mod_mask_size k) simp
  then show ?thesis using lt by simp
qed

lemma unat_next_a: "unat (b mod word_of_int MASK_SIZE + 7 :: u32) = unat b mod 4096 + 7"
  using unat_mod_plus [of 7 b] by simp

lemma unat_next_c: "unat (c mod word_of_int MASK_SIZE + 3 :: u32) = unat c mod 4096 + 3"
  using unat_mod_plus [of 3 c] by simp

lemma unat_next_1: "unat (b mod word_of_int MASK_SIZE + 1 :: u32) = unat b mod 4096 + 1"
  using unat_mod_plus [of 1 b] by simp

lemma unat_next_b:
  "unat ((b mod word_of_int MASK_SIZE + 1) mod word_of_int MASK_SIZE :: u32) =
     (unat b mod 4096 + 1) mod 4096"
  using unat_mod_plus [of 1 b] by (simp add: unat_mod MASK_SIZE_def)

subsection \<open>The loop\<close>

lemma decrypt_loop_step:
  "i < length data \<Longrightarrow>
   decrypt_loop mask8 i b c data =
     decrypt_loop mask8 (Suc i) (b mod word_of_int MASK_SIZE + 7) (c mod word_of_int MASK_SIZE + 3)
       (data[i := decode_byte (data ! i)
          (mask8 ! unat ((b mod word_of_int MASK_SIZE + 1) mod word_of_int MASK_SIZE))
          (mask8 ! unat (c mod word_of_int MASK_SIZE))
          (mask8 ! unat (b mod word_of_int MASK_SIZE))])"
  by (subst decrypt_loop.simps) (simp add: Let_def)

lemma decrypt_loop_stop: "length data \<le> i \<Longrightarrow> decrypt_loop mask8 i b c data = data"
  by (subst decrypt_loop.simps) simp

lemma decrypt_loop_precomputed:
  "i \<le> length data \<Longrightarrow>
   decrypt_loop mask8 i b c data =
     take i data @
     map (\<lambda>(x, (a, b, c)). decode_byte x (mask8 ! b) (mask8 ! c) (mask8 ! a))
       (zip (drop i data) (index_seq (length data - i) (unat b) (unat c)))"
proof (induction "length data - i" arbitrary: i b c data)
  case 0
  then show ?case by (simp add: decrypt_loop_stop)
next
  case (Suc n)
  then have lt: "i < length data" by simp
  let ?a = "b mod word_of_int MASK_SIZE"
  let ?c = "c mod word_of_int MASK_SIZE"
  let ?b = "(?a + 1) mod word_of_int MASK_SIZE"
  let ?v = "decode_byte (data ! i) (mask8 ! unat ?b) (mask8 ! unat ?c) (mask8 ! unat ?a)"
  let ?data = "data[i := ?v]"
  let ?f = "\<lambda>(x, (a, b, c)). decode_byte x (mask8 ! b) (mask8 ! c) (mask8 ! a)"
  have n: "n = length ?data - Suc i" using Suc.hyps(2) by simp
  have len: "length data - i = Suc (length data - Suc i)" using lt by simp
  have "decrypt_loop mask8 i b c data = decrypt_loop mask8 (Suc i) (?a + 7) (?c + 3) ?data"
    using lt by (rule decrypt_loop_step)
  also have "\<dots> = take (Suc i) ?data @
       map ?f (zip (drop (Suc i) ?data)
         (index_seq (length ?data - Suc i) (unat (?a + 7)) (unat (?c + 3))))"
    using lt by (intro Suc.hyps(1) [OF n]) simp
  also have "take (Suc i) ?data = take i data @ [?v]"
    using lt by (simp add: take_Suc_conv_app_nth)
  also have "drop (Suc i) ?data = drop (Suc i) data" by simp
  finally have "decrypt_loop mask8 i b c data =
      take i data @ ?v # map ?f (zip (drop (Suc i) data)
         (index_seq (length data - Suc i) (unat (?a + 7)) (unat (?c + 3))))"
    by simp
  moreover have "drop i data = data ! i # drop (Suc i) data"
    using lt by (simp add: Cons_nth_drop_Suc)
  ultimately show ?case
    by (simp add: len Let_def unat_next_a unat_next_1 unat_next_b unat_next_c unat_mod_mask_size)
qed

lemma index_seq_closed:
  "index_seq n b c =
     map (\<lambda>i. ((b + 7 * i) mod 4096, ((b + 7 * i) mod 4096 + 1) mod 4096, (c + 3 * i) mod 4096))
       [0..<n]"
proof (induction n arbitrary: b c)
  case 0
  show ?case by simp
next
  case (Suc n)
  have "[0..<Suc n] = 0 # map Suc [0..<n]"
    by (simp add: upt_conv_Cons map_Suc_upt del: upt_Suc)
  moreover have "(b mod 4096 + 7 + 7 * i) mod 4096 = (b + (7 + 7 * i)) mod 4096" for i
    by (simp add: mod_simps add.assoc)
  moreover have "(c mod 4096 + 3 + 3 * i) mod 4096 = (c + (3 + 3 * i)) mod 4096" for i
    by (simp add: mod_simps add.assoc)
  ultimately show ?case
    by (simp add: Suc.IH Let_def comp_def del: upt_Suc)
qed

text \<open>
  Claim C9. For every buffer, decoding with the index triples computed in advance for
  the positions \<open>0\<close> to \<open>N - 1\<close> gives exactly the bytes of the one-pass loop of
  \<open>Decrypt\<close>; the triples come from the recurrence alone, without the ciphertext, and
  the triple of position \<open>i\<close> is \<open>(7i mod 4096, (7i + 1) mod 4096, 3i mod 4096)\<close>.
\<close>

theorem decrypt_loop_index_precomputation:
  "decrypt_loop mask8 0 0 0 data = decode_precomputed mask8 data \<and>
   index_seq n 0 0 = map (\<lambda>i. (7 * i mod 4096, (7 * i + 1) mod 4096, 3 * i mod 4096)) [0..<n]"
proof
  show "decrypt_loop mask8 0 0 0 data = decode_precomputed mask8 data"
    using decrypt_loop_precomputed [of 0 data mask8 0 0]
    by (simp add: decode_precomputed_def)
next
  show "index_seq n 0 0 = map (\<lambda>i. (7 * i mod 4096, (7 * i + 1) mod 4096, 3 * i mod 4096)) [0..<n]"
    by (simp add: index_seq_closed mod_simps)
qed

lemma decrypt_loop_spec_decode:
  assumes "length mask8 = 4096"
  shows "i \<le> length data \<Longrightarrow>
   map uint (decrypt_loop mask8 i b c data) =
     map uint (take i data) @
     spec_decode (map uint mask8) (unat b) (unat c) (map uint (drop i data))"
proof (induction "length data - i" arbitrary: i b c data)
  case 0
  then show ?case by (simp add: decrypt_loop_stop)
next
  case (Suc n)
  then have lt: "i < length data" by simp
  let ?a = "b mod word_of_int MASK_SIZE"
  let ?c = "c mod word_of_int MASK_SIZE"
  let ?b = "(?a + 1) mod word_of_int MASK_SIZE"
  let ?v = "decode_byte (data ! i) (mask8 ! unat ?b) (mask8 ! unat ?c) (mask8 ! unat ?a)"
  let ?data = "data[i := ?v]"
  let ?M = "map uint mask8"
  have n: "n = length ?data - Suc i" using Suc.hyps(2) by simp
  have nth: "?M ! k = uint (mask8 ! k)" if "k < 4096" for k
    using that assms by simp
  have "decrypt_loop mask8 i b c data = decrypt_loop mask8 (Suc i) (?a + 7) (?c + 3) ?data"
    using lt by (rule decrypt_loop_step)
  then have "map uint (decrypt_loop mask8 i b c data) =
       map uint (take (Suc i) ?data) @
       spec_decode ?M (unat (?a + 7)) (unat (?c + 3)) (map uint (drop (Suc i) ?data))"
    using lt Suc.hyps(1) [OF n, of "?a + 7" "?c + 3"] by simp
  moreover have "take (Suc i) ?data = take i data @ [?v]"
    using lt by (simp add: take_Suc_conv_app_nth)
  moreover have "drop (Suc i) ?data = drop (Suc i) data" by simp
  moreover have "drop i data = data ! i # drop (Suc i) data"
    using lt by (simp add: Cons_nth_drop_Suc)
  moreover have "uint ?v =
      (((uint (data ! i) - ?M ! ((unat b mod 4096 + 1) mod 4096)) XOR ?M ! (unat c mod 4096)) +
        ?M ! (unat b mod 4096)) mod 256"
    by (simp only: decode_byte_uint unat_next_b unat_mod_mask_size) (simp add: nth unat_next_1)
  ultimately show ?case
    by (simp add: Let_def unat_next_a unat_next_c)
qed

text \<open>
  Claim C1. For every mask of 4096 bytes and every buffer, the loop of \<open>Decrypt\<close> yields
  the bytes of the decoder of section 4.3: positions in ascending order, \<open>b\<close> and \<open>c\<close>
  starting at 0, \<open>a = b mod 4096\<close>, \<open>c = c mod 4096\<close>, \<open>b = (a + 1) mod 4096\<close>, the byte
  replaced by \<open>(((byte - mask[b]) XOR mask[c]) + mask[a]) mod 256\<close>, then \<open>c = c + 3\<close> and
  \<open>b = a + 7\<close>, which are not reduced (and do not wrap around) before the next iteration.
\<close>

theorem decrypt_loop_spec:
  assumes "length mask8 = 4096"
  shows "map uint (decrypt_loop mask8 0 0 0 data) =
           spec_decode (map uint mask8) 0 0 (map uint data) \<and>
         (i < length data \<longrightarrow>
            decrypt_loop mask8 i b c data =
              decrypt_loop mask8 (i + 1) (b mod 4096 + 7) (c mod 4096 + 3)
                (data[i := ((data ! i - mask8 ! unat ((b mod 4096 + 1) mod 4096))
                              XOR mask8 ! unat (c mod 4096)) + mask8 ! unat (b mod 4096)]) \<and>
            unat (b mod 4096 + 7) = unat b mod 4096 + 7 \<and>
            unat (c mod 4096 + 3) = unat c mod 4096 + 3)"
proof (intro conjI impI)
  show "map uint (decrypt_loop mask8 0 0 0 data) = spec_decode (map uint mask8) 0 0 (map uint data)"
    using decrypt_loop_spec_decode [OF assms, of 0 data 0 0] by simp
next
  assume "i < length data"
  then show "decrypt_loop mask8 i b c data =
              decrypt_loop mask8 (i + 1) (b mod 4096 + 7) (c mod 4096 + 3)
                (data[i := ((data ! i - mask8 ! unat ((b mod 4096 + 1) mod 4096))
                              XOR mask8 ! unat (c mod 4096)) + mask8 ! unat (b mod 4096)])"
    using decrypt_loop_step [of i data mask8 b c] by (simp add: MASK_SIZE_def decode_byte_word)
next
  show "unat (b mod 4096 + 7) = unat b mod 4096 + 7"
    using unat_next_a [of b] by (simp add: MASK_SIZE_def)
next
  show "unat (c mod 4096 + 3) = unat c mod 4096 + 3"
    using unat_next_c [of c] by (simp add: MASK_SIZE_def)
qed

theorem decrypt_loop_spec_witness:
  "length (replicate 4096 (3 :: u8)) = 4096 \<and> 0 < length [5 :: u8, 7] \<and>
   map uint (decrypt_loop (replicate 4096 3) 0 0 0 [5, 7]) = [4, 10] \<and>
   decrypt_loop (replicate 4096 3) 0 0 0 [5, 7] = decrypt_loop (replicate 4096 3) 1 7 3 [4, 7]"
proof -
  have l: "length (replicate 4096 (3 :: u8)) = 4096" by simp
  note t = decrypt_loop_spec [OF l, of "[5, 7]" 0 0 0]
  have a: "map uint (decrypt_loop (replicate 4096 3) 0 0 0 [5, 7]) = [4, 10]"
    using t [THEN conjunct1] by simp
  have b: "decrypt_loop (replicate 4096 3) 0 0 0 [5, 7] =
           decrypt_loop (replicate 4096 3) 1 7 3 [4, 7]"
    using t [THEN conjunct2] by simp
  show ?thesis using l a b by simp
qed

section \<open>The facade\<close>

text \<open>Below 4 bytes, \<open>data.size() - 4\<close> wraps around to the top of the range of \<open>size_t\<close>.\<close>

lemma unat_size_minus_4:
  "n < 4 \<Longrightarrow> unat (word_of_nat n - 4 :: u64) = 2 ^ 64 - 4 + n"
proof -
  assume "n < 4"
  then consider "n = 0" | "n = 1" | "n = 2" | "n = 3" by linarith
  then show ?thesis
    by cases (simp_all add: unsigned_minus_1_eq_mask mask_eq_exp_minus_1)
qed

text \<open>
  Claim C4. \<open>DecryptSea\<close> has no check of the size of its input: for every name and every
  input of fewer than 4 bytes the \<open>memcpy\<close> of the checksum reads outside the vector,
  which is undefined behaviour and not the error \<open>InvalidInputSize\<close> of the claim.
\<close>

theorem DecryptSea_undersized:
  "length fileBytes < 4 \<Longrightarrow> DecryptSea char_signed fileName fileBytes = Inl OutOfBounds"
  by (simp add: DecryptSea_def Let_def unat_size_minus_4)

theorem DecryptSea_undersized_witness:
  "length [0x12, 0x34, 0x56 :: u8] < 4 \<and>
   DecryptSea True ''SC0.SEA'' [0x12, 0x34, 0x56] = Inl OutOfBounds"
  using DecryptSea_undersized [of "[0x12, 0x34, 0x56]" True "''SC0.SEA''"] by simp

text \<open>From 4 bytes on, the last four bytes are cut off and the rest is decoded.\<close>

lemma DecryptSea_regular:
  assumes "4 \<le> length fileBytes" and "length fileBytes < 2 ^ 64"
  shows "DecryptSea char_signed fileName fileBytes =
     Decrypt (take (length fileBytes - 4) fileBytes) (GetEncryptionKey char_signed fileName)"
proof -
  have "unat (word_of_nat (length fileBytes) - 4 :: u64) = length fileBytes - 4"
    using assms
    by (simp add: unat_sub_if' unat_of_nat take_bit_nat_eq_self word_le_nat_alt word_less_nat_alt)
  then show ?thesis
    using assms by (simp add: DecryptSea_def Let_def resize_def)
qed

lemma Decrypt_returns:
  "Decrypt data key =
     Inr (decrypt_loop (spec_mask_rounds 1024 (Seed0 key) (Seed1 key)) 0 0 0 data)"
  by (simp add: Decrypt_def CreateMask_rounds)

end
